theory Spec2Isabelle
  imports Main "HOL-Library.Word"
begin

unbundle bit_operations_syntax

section \<open>Data model\<close>

type_synonym byte = "8 word"

text \<open>\<open>color.RGBA\<close>: four 8-bit channels. A struct literal that leaves a field out
  sets it to zero.\<close>

record RGBA =
  R :: byte
  G :: byte
  B :: byte
  A :: byte

definition zeroRGBA :: RGBA where
  "zeroRGBA = \<lparr>R = 0, G = 0, B = 0, A = 0\<rparr>"

text \<open>A call either returns a value, returns a non-nil \<open>error\<close>, or panics (a Go
  run-time panic unwinds through every caller here, none of them recovers).\<close>

datatype error =
    External string
  | EOF
  | ErrUnexpectedEOF
  | ReadingImage error
  | UnsupportedCompressionFormat "32 word"
  | UnsupportedPixelFormat "32 word"

datatype panic = SliceBoundsOutOfRange | IndexOutOfRange

datatype 'a result = Ok 'a | Err error | Panic panic

fun rbind :: "'a result \<Rightarrow> ('a \<Rightarrow> 'b result) \<Rightarrow> 'b result" where
  "rbind (Ok x) f = f x"
| "rbind (Err e) f = Err e"
| "rbind (Panic p) f = Panic p"

text \<open>A loop \<open>for k := 0; k < n; k++\<close> whose body updates a state and may fail: the
  body is run on \<open>[0..<n]\<close> in order and the first failure ends the loop.\<close>

fun forM :: "nat list \<Rightarrow> (nat \<Rightarrow> 's \<Rightarrow> 's result) \<Rightarrow> 's \<Rightarrow> 's result" where
  "forM [] body s = Ok s"
| "forM (k # ks) body s = rbind (body k s) (forM ks body)"

subsection \<open>Byte slices\<close>

text \<open>A \<open>[]byte\<close> is a window on a backing array: \<open>backing\<close> holds the array from the
  slice's first element up to its capacity, \<open>len\<close> the slice's length. A slice
  expression \<open>s[a:]\<close> is checked against the length, \<open>s[a:b]\<close> against the capacity.\<close>

record byteslice =
  backing :: "byte list"
  len :: nat

definition cap :: "byteslice \<Rightarrow> nat" where
  "cap s = length (backing s)"

definition visible :: "byteslice \<Rightarrow> byte list" where
  "visible s = take (len s) (backing s)"

definition sliceOf :: "byte list \<Rightarrow> byteslice" where
  "sliceOf bs = \<lparr>backing = bs, len = length bs\<rparr>"

definition sliceFrom :: "byteslice \<Rightarrow> nat \<Rightarrow> byteslice result" where
  "sliceFrom s a =
     (if a \<le> len s then Ok \<lparr>backing = drop a (backing s), len = len s - a\<rparr>
      else Panic SliceBoundsOutOfRange)"

definition sliceRange :: "byteslice \<Rightarrow> nat \<Rightarrow> nat \<Rightarrow> byteslice result" where
  "sliceRange s a b =
     (if a \<le> b \<and> b \<le> cap s then Ok \<lparr>backing = drop a (backing s), len = b - a\<rparr>
      else Panic SliceBoundsOutOfRange)"

text \<open>\<open>binary.Read(bytes.NewBuffer(s), binary.LittleEndian, &v)\<close> for a \<open>v\<close> of \<open>n\<close>
  bytes: \<open>io.EOF\<close> when the buffer is empty, \<open>io.ErrUnexpectedEOF\<close> when it is
  shorter than \<open>n\<close>, the first \<open>n\<close> bytes otherwise.\<close>

definition binaryRead :: "byteslice \<Rightarrow> nat \<Rightarrow> byte list result" where
  "binaryRead s n =
     (if n = 0 then Ok []
      else if len s = 0 then Err EOF
      else if len s < n then Err ErrUnexpectedEOF
      else Ok (take n (backing s)))"

text \<open>Little-endian unsigned integers of 8, 16 and 32 bits.\<close>

definition le8 :: "byte list \<Rightarrow> byte" where
  "le8 bs = bs ! 0"

definition le16 :: "byte list \<Rightarrow> 16 word" where
  "le16 bs = ucast (bs ! 0) OR push_bit 8 (ucast (bs ! 1))"

definition le32 :: "byte list \<Rightarrow> 32 word" where
  "le32 bs = ucast (bs ! 0) OR push_bit 8 (ucast (bs ! 1))
               OR push_bit 16 (ucast (bs ! 2)) OR push_bit 24 (ucast (bs ! 3))"

text \<open>The unsigned little-endian integer of a byte string of any length.\<close>

definition leValue :: "byte list \<Rightarrow> int" where
  "leValue bs = horner_sum uint 256 bs"

section \<open>BC3 (DXT5) block decompression\<close>

definition blockSize :: nat where
  "blockSize = 4"

text \<open>Modelled from the spec: \<open>common.Rgb565toargb8888\<close>, whose package is not among
  the sources. The spec gives the standard 5/6/5 to 8/8/8 expansion by bit replication,
  with no alpha contribution. The block decoder below takes the expansion as a
  parameter, so nothing proved about it depends on this definition; it serves to run
  the decoder on concrete blocks.\<close>

definition Rgb565toargb8888 :: "16 word \<Rightarrow> RGBA" where
  "Rgb565toargb8888 c =
     (let r5 = drop_bit 11 c AND 31; g6 = drop_bit 5 c AND 63; b5 = c AND 31
      in \<lparr>R = ucast (push_bit 3 r5 OR drop_bit 2 r5),
          G = ucast (push_bit 2 g6 OR drop_bit 4 g6),
          B = ucast (push_bit 3 b5 OR drop_bit 2 b5),
          A = 0\<rparr>)"

text \<open>Lines 250-251: the two words of the alpha index table, from the six bytes
  \<open>bits\<close> read at offset 2 of the block.\<close>

definition alphaCode1Of :: "byte list \<Rightarrow> 32 word" where
  "alphaCode1Of bits = ucast (bits ! 2) OR push_bit 8 (ucast (bits ! 3))
                         OR push_bit 16 (ucast (bits ! 4)) OR push_bit 24 (ucast (bits ! 5))"

definition alphaCode2Of :: "byte list \<Rightarrow> 16 word" where
  "alphaCode2Of bits = ucast (bits ! 0) OR push_bit 8 (ucast (bits ! 1))"

text \<open>Lines 275-285: the 3-bit alpha code of texel \<open>(i, j)\<close>, a Go \<open>int\<close>.\<close>

definition alphaCodeAt :: "32 word \<Rightarrow> 16 word \<Rightarrow> nat \<Rightarrow> nat \<Rightarrow> int" where
  "alphaCodeAt alphaCode1 alphaCode2 i j =
     (let alphaCodeIndex = 3 * (4 * j + i)
      in if alphaCodeIndex \<le> 12 then uint (drop_bit alphaCodeIndex alphaCode2 AND 7)
         else if alphaCodeIndex = 15
           then uint (drop_bit 15 (ucast alphaCode2 :: 32 word) OR (push_bit 1 alphaCode1 AND 6))
         else uint (drop_bit (alphaCodeIndex - 16) alphaCode1 AND 7))"

text \<open>Lines 287-304: the alpha of a texel. Every operand is a \<open>uint8\<close>, so the products
  and sums are taken modulo 256 before the division.\<close>

definition finalAlphaOf :: "byte \<Rightarrow> byte \<Rightarrow> int \<Rightarrow> byte" where
  "finalAlphaOf alpha0 alpha1 alphaCode =
     (if alphaCode = 0 then alpha0
      else if alphaCode = 1 then alpha1
      else if alpha0 > alpha1
        then ((8 - word_of_int alphaCode) * alpha0 + (word_of_int alphaCode - 1) * alpha1) div 7
      else if alphaCode = 6 then 0
      else if alphaCode = 7 then 255
      else ((6 - word_of_int alphaCode) * alpha0 + (word_of_int alphaCode - 1) * alpha1) div 5)"

text \<open>Line 306: the 2-bit colour code of texel \<open>(i, j)\<close>.\<close>

definition colorCodeAt :: "32 word \<Rightarrow> nat \<Rightarrow> nat \<Rightarrow> 32 word" where
  "colorCodeAt code i j = drop_bit (2 * (4 * j + i)) code AND 3"

text \<open>Lines 308-326: the colour of a texel, again in \<open>uint8\<close> arithmetic. The switch
  has no default: the codes are 0 to 3.\<close>

definition finalColourOf :: "RGBA \<Rightarrow> RGBA \<Rightarrow> 32 word \<Rightarrow> RGBA" where
  "finalColourOf colour0 colour1 colorCode =
     (if colorCode = 0 then colour0
      else if colorCode = 1 then colour1
      else if colorCode = 2 then
        \<lparr>R = (2 * R colour0 + R colour1) div 3,
         G = (2 * G colour0 + G colour1) div 3,
         B = (2 * B colour0 + B colour1) div 3,
         A = 0\<rparr>
      else if colorCode = 3 then
        \<lparr>R = (R colour0 + 2 * R colour1) div 3,
         G = (G colour0 + 2 * G colour1) div 3,
         B = (B colour0 + 2 * B colour1) div 3,
         A = 0\<rparr>
      else zeroRGBA)"

text \<open>Lines 336-338: the clipped store. Only the column is compared with the width;
  an index beyond the slice is a run-time panic.\<close>

definition storeTexel :: "nat \<Rightarrow> nat \<Rightarrow> nat \<Rightarrow> nat \<Rightarrow> nat \<Rightarrow> RGBA \<Rightarrow> RGBA list \<Rightarrow> RGBA list result" where
  "storeTexel offsetX offsetY width i j finalColour unpacked =
     (if offsetX + i < width then
        (let k = (offsetY + j) * width + (offsetX + i)
         in if k < length unpacked then Ok (unpacked[k := finalColour])
            else Panic IndexOutOfRange)
      else Ok unpacked)"

text \<open>Lines 274-339: the body of the texel loops.\<close>

definition texel :: "byte \<Rightarrow> byte \<Rightarrow> 32 word \<Rightarrow> 16 word \<Rightarrow> RGBA \<Rightarrow> RGBA \<Rightarrow> 32 word
    \<Rightarrow> nat \<Rightarrow> nat \<Rightarrow> RGBA" where
  "texel alpha0 alpha1 alphaCode1 alphaCode2 colour0 colour1 code i j =
     (let alphaCode = alphaCodeAt alphaCode1 alphaCode2 i j;
          finalAlpha = finalAlphaOf alpha0 alpha1 alphaCode;
          colorCode = colorCodeAt code i j;
          finalColour = finalColourOf colour0 colour1 colorCode
      in finalColour\<lparr>A := finalAlpha\<rparr>)"

definition texelLoops :: "(nat \<Rightarrow> nat \<Rightarrow> RGBA) \<Rightarrow> nat \<Rightarrow> nat \<Rightarrow> nat \<Rightarrow> RGBA list \<Rightarrow> RGBA list result" where
  "texelLoops tx offsetX offsetY width unpacked =
     forM [0..<blockSize] (\<lambda>j.
       forM [0..<blockSize] (\<lambda>i. storeTexel offsetX offsetY width i j (tx i j))) unpacked"

text \<open>\<open>decompressDxt5Block\<close>, lines 233-343. The no-op on \<open>finalAlpha != 255\<close> (lines
  328-331) changes nothing and is left out.\<close>

definition decompressDxt5Block :: "(16 word \<Rightarrow> RGBA) \<Rightarrow> byteslice \<Rightarrow> nat \<Rightarrow> nat \<Rightarrow> nat
    \<Rightarrow> RGBA list \<Rightarrow> RGBA list result" where
  "decompressDxt5Block expand packed offsetX offsetY width unpacked =
     rbind (sliceRange packed 0 1) (\<lambda>s0.
     rbind (binaryRead s0 1) (\<lambda>b0.
     rbind (sliceRange packed 1 2) (\<lambda>s1.
     rbind (binaryRead s1 1) (\<lambda>b1.
     rbind (sliceRange packed 2 8) (\<lambda>s2.
     rbind (binaryRead s2 6) (\<lambda>bits.
     rbind (sliceRange packed 8 10) (\<lambda>s3.
     rbind (binaryRead s3 2) (\<lambda>b3.
     rbind (sliceRange packed 10 12) (\<lambda>s4.
     rbind (binaryRead s4 2) (\<lambda>b4.
     rbind (sliceRange packed 12 16) (\<lambda>s5.
     rbind (binaryRead s5 4) (\<lambda>b5.
       texelLoops
         (texel (le8 b0) (le8 b1) (alphaCode1Of bits) (alphaCode2Of bits)
                (expand (le16 b3)) (expand (le16 b4)) (le32 b5))
         offsetX offsetY width unpacked))))))))))))"

text \<open>\<open>decompressDxt5\<close>, lines 211-228. Width and height are the header's unsigned
  32-bit fields converted to \<open>int\<close>; they are natural numbers here and the products are
  exact. The row loop carries \<open>offset\<close> with the output.\<close>

definition blockRow :: "(16 word \<Rightarrow> RGBA) \<Rightarrow> byteslice \<Rightarrow> nat \<Rightarrow> nat \<Rightarrow> nat
    \<Rightarrow> nat \<times> RGBA list \<Rightarrow> (nat \<times> RGBA list) result" where
  "blockRow expand packed width blockCountX j st =
     rbind (forM [0..<blockCountX] (\<lambda>i unpacked.
              rbind (sliceFrom packed (fst st + i * 16)) (\<lambda>p.
                decompressDxt5Block expand p (i * blockSize) (j * blockSize) width unpacked))
            (snd st))
       (\<lambda>unpacked. Ok (fst st + blockCountX * 16, unpacked))"

definition decompressDxt5 :: "(16 word \<Rightarrow> RGBA) \<Rightarrow> byteslice \<Rightarrow> nat \<Rightarrow> nat \<Rightarrow> RGBA list result" where
  "decompressDxt5 expand packed width height =
     (let unpacked = replicate (width * height) zeroRGBA;
          blockCountX = (width + 3) div blockSize;
          blockCountY = (height + 3) div blockSize
      in rbind (forM [0..<blockCountY] (blockRow expand packed width blockCountX) (0, unpacked))
           (\<lambda>st. Ok (snd st)))"

section \<open>Container header, readers and surfaces\<close>

text \<open>Modelled from the spec: the header and pixel-format structs, which are declared
  in a file that is not among the sources. The spec gives their fields as 32-bit
  little-endian values; only the fields that the decoder reads are kept.\<close>

record pixelFormat =
  flags :: "32 word"
  fourCC :: "32 word"
  rgbBitCount :: "32 word"
  rBitMask :: "32 word"
  gBitMask :: "32 word"
  bBitMask :: "32 word"
  aBitMask :: "32 word"

record header =
  height :: "32 word"
  width :: "32 word"
  pixelFormat :: pixelFormat

text \<open>Modelled from the spec: the compression tags, declared beside the header. The
  spec gives zero for uncompressed data and the ASCII tags DXT1 and DXT5, which the
  little-endian header read turns into these words.\<close>

definition compressionTypeNone :: "32 word" where
  "compressionTypeNone = 0"

definition compressionTypeDXT1 :: "32 word" where
  "compressionTypeDXT1 = le32 [0x44, 0x58, 0x54, 0x31]"

definition compressionTypeDXT5 :: "32 word" where
  "compressionTypeDXT5 = le32 [0x44, 0x58, 0x54, 0x35]"

text \<open>An \<open>io.Reader\<close>: the bytes it still yields, and how it ends: with \<open>io.EOF\<close>
  (\<open>None\<close>) or with an error of its own.\<close>

record reader =
  pending :: "byte list"
  fault :: "error option"

text \<open>\<open>io.ReadAll\<close> returns every pending byte in a slice that it grows by appending,
  so the slice may have capacity left over; \<open>spare\<close> is what that unused tail of the
  buffer holds.\<close>

definition ReadAll :: "byte list \<Rightarrow> reader \<Rightarrow> byteslice result" where
  "ReadAll spare r =
     (case fault r of
        Some e \<Rightarrow> Err e
      | None \<Rightarrow> Ok \<lparr>backing = pending r @ spare, len = length (pending r)\<rparr>)"

text \<open>\<open>io.ReadFull\<close> into a buffer of \<open>n\<close> bytes.\<close>

definition ReadFull :: "reader \<Rightarrow> nat \<Rightarrow> byte list result" where
  "ReadFull r n =
     (if n \<le> length (pending r) then Ok (take n (pending r))
      else case fault r of
             Some e \<Rightarrow> Err e
           | None \<Rightarrow> if pending r = [] then Err EOF else Err ErrUnexpectedEOF)"

text \<open>The surfaces: \<open>image.RGBA\<close> for the compressed paths, \<open>img\<close> (lines 78-85) for
  the uncompressed one. The field \<open>h\<close> of \<open>img\<close> is called \<open>hdr\<close> here.\<close>

record imageRGBA =
  Pix :: "byte list"
  Stride :: nat
  Rect :: "nat \<times> nat"

record img =
  hdr :: header
  buf :: "byte list"
  rBit :: nat
  gBit :: nat
  bBit :: nat
  aBit :: nat
  stride :: nat
  pitch :: nat

datatype image = RGBAImage imageRGBA | PullImage img

text \<open>What the decoder takes from declarations that are not among the sources:
  \<open>readHeader\<close> (which returns the header and leaves the reader after it), the two
  pixel-format flag bits, the 565 expansion of package \<open>common\<close>, and the external BC1
  decoder \<open>dxt.DecodeDXT1\<close>.\<close>

record deps =
  readHeader :: "reader \<Rightarrow> (header \<times> reader) result"
  pfAlphaPixels :: "32 word"
  pfRGB :: "32 word"
  expand565 :: "16 word \<Rightarrow> RGBA"
  DecodeDXT1 :: "byte list \<Rightarrow> nat \<Rightarrow> nat \<Rightarrow> byte list result"

text \<open>Modelled from the spec: \<open>lowestSetBit\<close> and \<open>readBits\<close>, which are not among the
  sources. The spec: the bit offset of a channel is the index of the lowest set bit of
  its mask; a pixel is read as \<open>rgbBitCount\<close> bits, rounded up to a byte count, taken
  as an unsigned little-endian integer. For a mask of zero, and for a buffer shorter
  than the byte count, the spec says nothing: the model gives 0 and a panic.\<close>

fun lowestSetBitFrom :: "nat \<Rightarrow> nat \<Rightarrow> 32 word \<Rightarrow> nat" where
  "lowestSetBitFrom 0 i n = 0"
| "lowestSetBitFrom (Suc k) i n = (if bit n i then i else lowestSetBitFrom k (Suc i) n)"

definition lowestSetBit :: "32 word \<Rightarrow> nat" where
  "lowestSetBit n = lowestSetBitFrom 32 0 n"

definition readBits :: "byteslice \<Rightarrow> 32 word \<Rightarrow> 32 word result" where
  "readBits s n =
     (let nbytes = (unat n + 7) div 8
      in if nbytes \<le> len s then Ok (word_of_int (leValue (take nbytes (backing s))))
         else Panic IndexOutOfRange)"

section \<open>Decoding\<close>

text \<open>\<open>img.At\<close>, lines 95-103.\<close>

definition At :: "img \<Rightarrow> nat \<Rightarrow> nat \<Rightarrow> RGBA result" where
  "At i x y =
     (let arrPsn = pitch i * y + stride i * x;
          pf = pixelFormat (hdr i)
      in rbind (sliceFrom (sliceOf (buf i)) arrPsn) (\<lambda>s.
         rbind (readBits s (rgbBitCount pf)) (\<lambda>d.
           Ok \<lparr>R = ucast (drop_bit (rBit i) (d AND rBitMask pf)),
               G = ucast (drop_bit (gBit i) (d AND gBitMask pf)),
               B = ucast (drop_bit (bBit i) (d AND bBitMask pf)),
               A = ucast (drop_bit (aBit i) (d AND aBitMask pf))\<rparr>)))"

text \<open>\<open>decodeDXT5DDS\<close>, lines 124-149. The stride is computed in 32 bits.\<close>

definition pixelBytes :: "RGBA list \<Rightarrow> byte list" where
  "pixelBytes rgbaPixels = concat (map (\<lambda>pixel. [R pixel, G pixel, B pixel, A pixel]) rgbaPixels)"

definition decodeDXT5DDS :: "deps \<Rightarrow> byte list \<Rightarrow> header \<Rightarrow> reader \<Rightarrow> image result" where
  "decodeDXT5DDS d spare h r =
     rbind (ReadAll spare r) (\<lambda>imgBytes.
     rbind (decompressDxt5 (expand565 d) imgBytes (unat (width h)) (unat (height h))) (\<lambda>rgbaPixels.
       Ok (RGBAImage \<lparr>Pix = pixelBytes rgbaPixels,
                      Stride = unat (4 * width h),
                      Rect = (unat (width h), unat (height h))\<rparr>)))"

text \<open>\<open>decodeUncompressedDDS\<close>, lines 151-175. The pitch and the buffer length are
  products of \<open>uint32\<close> values.\<close>

definition decodeUncompressedDDS :: "deps \<Rightarrow> header \<Rightarrow> reader \<Rightarrow> image result" where
  "decodeUncompressedDDS d h r =
     (let pf = pixelFormat h
      in if flags pf AND (pfAlphaPixels d OR pfRGB d) \<noteq> (pfAlphaPixels d OR pfRGB d)
         then Err (UnsupportedPixelFormat (flags pf))
         else
           (let pitch = (width h * rgbBitCount pf + 7) div 8
            in case ReadFull r (unat (pitch * height h)) of
                 Err e \<Rightarrow> Err (ReadingImage e)
               | Panic p \<Rightarrow> Panic p
               | Ok bytes \<Rightarrow>
                   (let stride = rgbBitCount pf div 8
                    in Ok (PullImage \<lparr>hdr = h, buf = bytes,
                                      rBit = lowestSetBit (rBitMask pf),
                                      gBit = lowestSetBit (gBitMask pf),
                                      bBit = lowestSetBit (bBitMask pf),
                                      aBit = lowestSetBit (aBitMask pf),
                                      stride = unat stride, pitch = unat pitch\<rparr>))))"

text \<open>\<open>decodeDXT1DDS\<close>, lines 178-194. The collaborator is given the bytes of the
  slice.\<close>

definition decodeDXT1DDS :: "deps \<Rightarrow> byte list \<Rightarrow> header \<Rightarrow> reader \<Rightarrow> image result" where
  "decodeDXT1DDS d spare h r =
     rbind (ReadAll spare r) (\<lambda>imgBytes.
     rbind (DecodeDXT1 d (visible imgBytes) (unat (width h)) (unat (height h))) (\<lambda>rgbaBytes.
       Ok (RGBAImage \<lparr>Pix = rgbaBytes,
                      Stride = unat (4 * width h),
                      Rect = (unat (width h), unat (height h))\<rparr>)))"

text \<open>\<open>Decode\<close>, lines 105-122.\<close>

definition Decode :: "deps \<Rightarrow> byte list \<Rightarrow> reader \<Rightarrow> image result" where
  "Decode d spare r =
     rbind (readHeader d r) (\<lambda>(h, r').
       if fourCC (pixelFormat h) = compressionTypeNone then decodeUncompressedDDS d h r'
       else if fourCC (pixelFormat h) = compressionTypeDXT1 then decodeDXT1DDS d spare h r'
       else if fourCC (pixelFormat h) = compressionTypeDXT5 then decodeDXT5DDS d spare h r'
       else Err (UnsupportedCompressionFormat (fourCC (pixelFormat h))))"

section \<open>Notions used in the statements\<close>

text \<open>The texel function of a block, from the block's sixteen bytes.\<close>

definition texelOfBytes :: "(16 word \<Rightarrow> RGBA) \<Rightarrow> byte list \<Rightarrow> nat \<Rightarrow> nat \<Rightarrow> RGBA" where
  "texelOfBytes expand bs =
     texel (le8 (take 1 bs)) (le8 (take 1 (drop 1 bs)))
           (alphaCode1Of (take 6 (drop 2 bs))) (alphaCode2Of (take 6 (drop 2 bs)))
           (expand (le16 (take 2 (drop 8 bs)))) (expand (le16 (take 2 (drop 10 bs))))
           (le32 (take 4 (drop 12 bs)))"

text \<open>The indices of the output that the stores of one block, and of all the blocks
  of an image, are aimed at.\<close>

definition blockWrites :: "nat \<Rightarrow> nat \<Rightarrow> nat \<Rightarrow> nat set" where
  "blockWrites offsetX offsetY w =
     {(offsetY + j) * w + (offsetX + i) | i j. i < blockSize \<and> j < blockSize \<and> offsetX + i < w}"

definition imageWrites :: "nat \<Rightarrow> nat \<Rightarrow> nat set" where
  "imageWrites w h =
     (\<Union>by \<in> {..<(h + 3) div blockSize}. \<Union>bx \<in> {..<(w + 3) div blockSize}.
        blockWrites (bx * blockSize) (by * blockSize) w)"

text \<open>\<open>framed u0 W u\<close>: the buffer \<open>u\<close> has the length of \<open>u0\<close> and differs from it
  only at indices of \<open>W\<close>.\<close>

definition framed :: "RGBA list \<Rightarrow> nat set \<Rightarrow> RGBA list \<Rightarrow> bool" where
  "framed u0 W u \<longleftrightarrow> length u = length u0 \<and> (\<forall>q<length u0. u ! q = u0 ! q \<or> q \<in> W)"

definition isOk :: "'a result \<Rightarrow> bool" where
  "isOk m = (case m of Ok x \<Rightarrow> True | Err e \<Rightarrow> False | Panic p \<Rightarrow> False)"

text \<open>Sample surroundings for running the decoder: a \<open>readHeader\<close> that yields a given
  header and leaves the reader as it is, the flag bits 0x1 and 0x40 of the DDS format,
  and a BC1 decoder that returns zero bytes; and a header of 32-bit pixels with 8-bit
  channels.\<close>

definition fixedHeaderDeps :: "header \<Rightarrow> deps" where
  "fixedHeaderDeps h = \<lparr>readHeader = (\<lambda>r. Ok (h, r)), pfAlphaPixels = 0x1, pfRGB = 0x40,
      expand565 = Rgb565toargb8888, DecodeDXT1 = (\<lambda>bs w h. Ok (replicate (w * h * 4) 0))\<rparr>"

definition rgba32Header :: "32 word \<Rightarrow> 32 word \<Rightarrow> 32 word \<Rightarrow> 32 word \<Rightarrow> header" where
  "rgba32Header tag fl w h = \<lparr>height = h, width = w,
     pixelFormat = \<lparr>flags = fl, fourCC = tag, rgbBitCount = 32,
        rBitMask = 0x00FF0000, gBitMask = 0x0000FF00, bBitMask = 0x000000FF,
        aBitMask = 0xFF000000\<rparr>\<rparr>"

section \<open>Loops\<close>

lemma rbind_Ok_iff: "rbind m f = Ok y \<longleftrightarrow> (\<exists>x. m = Ok x \<and> f x = Ok y)"
  by (cases m) simp_all

lemma rbind_Err_iff: "rbind m f = Err e \<longleftrightarrow> m = Err e \<or> (\<exists>x. m = Ok x \<and> f x = Err e)"
  by (cases m) simp_all

lemma forM_invariant:
  assumes "forM ks body s = Ok s'" and "P s"
    and "\<And>k t t'. k \<in> set ks \<Longrightarrow> P t \<Longrightarrow> body k t = Ok t' \<Longrightarrow> P t'"
  shows "P s'"
  using assms
proof (induction ks arbitrary: s)
  case Nil
  then show ?case by simp
next
  case (Cons k ks)
  from Cons.prems(1) obtain t where t: "body k s = Ok t" "forM ks body t = Ok s'"
    by (auto simp add: rbind_Ok_iff)
  have "P t" using Cons.prems(3) [of k s t] Cons.prems(2) t(1) by simp
  moreover have "\<And>k' u u'. k' \<in> set ks \<Longrightarrow> P u \<Longrightarrow> body k' u = Ok u' \<Longrightarrow> P u'"
    using Cons.prems(3) by auto
  ultimately show ?case using Cons.IH [OF t(2)] by blast
qed

lemma forM_no_Err:
  assumes "\<And>k t. k \<in> set ks \<Longrightarrow> body k t \<noteq> Err e"
  shows "forM ks body s \<noteq> Err e"
  using assms
proof (induction ks arbitrary: s)
  case Nil
  then show ?case by simp
next
  case (Cons k ks)
  have "body k s \<noteq> Err e" using Cons.prems by simp
  moreover have "\<And>t. forM ks body t \<noteq> Err e" using Cons by simp
  ultimately show ?case by (cases "body k s") simp_all
qed

lemma forM_cong:
  assumes "\<And>k t. k \<in> set ks \<Longrightarrow> body k t = body' k t"
  shows "forM ks body s = forM ks body' s"
  using assms
proof (induction ks arbitrary: s)
  case Nil
  then show ?case by simp
next
  case (Cons k ks)
  then show ?case by (cases "body' k s") simp_all
qed

section \<open>One block\<close>

lemma decompressDxt5Block_short:
  assumes "cap packed < 16"
  shows "decompressDxt5Block expand packed offsetX offsetY w unpacked = Panic SliceBoundsOutOfRange"
proof -
  consider "cap packed < 1" | "1 \<le> cap packed" "cap packed < 2" | "2 \<le> cap packed" "cap packed < 8"
    | "8 \<le> cap packed" "cap packed < 10" | "10 \<le> cap packed" "cap packed < 12"
    | "12 \<le> cap packed" "cap packed < 16"
    using assms by linarith
  then show ?thesis
    by cases (simp_all add: decompressDxt5Block_def sliceRange_def binaryRead_def)
qed

lemma decompressDxt5Block_bytes:
  assumes "16 \<le> cap packed"
  shows "decompressDxt5Block expand packed offsetX offsetY w unpacked
           = texelLoops (texelOfBytes expand (take 16 (backing packed))) offsetX offsetY w unpacked"
  using assms
  by (simp add: decompressDxt5Block_def sliceRange_def binaryRead_def texelOfBytes_def
        le8_def le16_def le32_def alphaCode1Of_def alphaCode2Of_def take_drop)

section \<open>Stores stay in their frame\<close>

lemma framed_refl: "framed u0 W u0"
  by (simp add: framed_def)

lemma storeTexel_framed:
  assumes "storeTexel offsetX offsetY w i j c u = Ok u'" "framed u0 W u"
    and "offsetX + i < w \<Longrightarrow> (offsetY + j) * w + (offsetX + i) \<in> W"
  shows "framed u0 W u'"
  using assms
  by (auto simp add: storeTexel_def framed_def Let_def nth_list_update split: if_splits)

lemma texelLoops_framed:
  assumes "texelLoops tx offsetX offsetY w u = Ok u'" "framed u0 W u"
    and "blockWrites offsetX offsetY w \<subseteq> W"
  shows "framed u0 W u'"
proof -
  have inner: "framed u0 W t'"
    if "forM [0..<blockSize] (\<lambda>i. storeTexel offsetX offsetY w i j (tx i j)) t = Ok t'"
      and "framed u0 W t" and "j < blockSize" for j t t'
  proof (rule forM_invariant [where P = "framed u0 W", OF that(1) that(2)])
    fix i v v'
    assume i: "i \<in> set [0..<blockSize]" and v: "framed u0 W v"
      and st: "storeTexel offsetX offsetY w i j (tx i j) v = Ok v'"
    have "offsetX + i < w \<Longrightarrow> (offsetY + j) * w + (offsetX + i) \<in> W"
      using assms(3) i that(3) by (auto simp add: blockWrites_def)
    then show "framed u0 W v'" by (rule storeTexel_framed [OF st v])
  qed
  show ?thesis
  proof (rule forM_invariant [where P = "framed u0 W", OF assms(1) [unfolded texelLoops_def] assms(2)])
    fix j t t'
    assume "j \<in> set [0..<blockSize]" "framed u0 W t"
      "forM [0..<blockSize] (\<lambda>i. storeTexel offsetX offsetY w i j (tx i j)) t = Ok t'"
    then show "framed u0 W t'" using inner by simp
  qed
qed

lemma decompressDxt5Block_framed:
  assumes "decompressDxt5Block expand packed offsetX offsetY w u = Ok u'" "framed u0 W u"
    and "blockWrites offsetX offsetY w \<subseteq> W"
  shows "framed u0 W u'"
proof (cases "16 \<le> cap packed")
  case True
  then show ?thesis
    using assms texelLoops_framed by (simp add: decompressDxt5Block_bytes)
next
  case False
  then show ?thesis using assms(1) by (simp add: decompressDxt5Block_short)
qed

lemma blockRow_framed:
  assumes "blockRow expand packed w blockCountX j st = Ok st'" "framed u0 W (snd st)"
    and "\<And>i. i < blockCountX \<Longrightarrow> blockWrites (i * blockSize) (j * blockSize) w \<subseteq> W"
  shows "framed u0 W (snd st')"
proof -
  from assms(1) obtain u' where
    loop: "forM [0..<blockCountX] (\<lambda>i unpacked.
              rbind (sliceFrom packed (fst st + i * 16)) (\<lambda>p.
                decompressDxt5Block expand p (i * blockSize) (j * blockSize) w unpacked))
            (snd st) = Ok u'"
    and st': "st' = (fst st + blockCountX * 16, u')"
    by (auto simp add: blockRow_def rbind_Ok_iff)
  have "framed u0 W u'"
  proof (rule forM_invariant [where P = "framed u0 W", OF loop assms(2)])
    fix i t t'
    assume i: "i \<in> set [0..<blockCountX]" and t: "framed u0 W t"
      and b: "rbind (sliceFrom packed (fst st + i * 16)) (\<lambda>p.
                decompressDxt5Block expand p (i * blockSize) (j * blockSize) w t) = Ok t'"
    from b obtain p where "decompressDxt5Block expand p (i * blockSize) (j * blockSize) w t = Ok t'"
      by (auto simp add: rbind_Ok_iff)
    then show "framed u0 W t'"
      using decompressDxt5Block_framed t assms(3) i by simp
  qed
  then show ?thesis by (simp add: st')
qed

lemma decompressDxt5_framed:
  assumes "decompressDxt5 expand packed w h = Ok out"
  shows "framed (replicate (w * h) zeroRGBA) (imageWrites w h) out"
proof -
  let ?u0 = "replicate (w * h) zeroRGBA"
  let ?bx = "(w + 3) div blockSize"
  let ?by = "(h + 3) div blockSize"
  from assms obtain st where
    loop: "forM [0..<?by] (blockRow expand packed w ?bx) (0, ?u0) = Ok st" and out: "out = snd st"
    by (auto simp add: decompressDxt5_def Let_def rbind_Ok_iff)
  have "framed ?u0 (imageWrites w h) (snd st)"
  proof (rule forM_invariant [where P = "\<lambda>st. framed ?u0 (imageWrites w h) (snd st)", OF loop])
    show "framed ?u0 (imageWrites w h) (snd (0, ?u0))" by (simp add: framed_refl)
  next
    fix j t t'
    assume j: "j \<in> set [0..<?by]" and t: "framed ?u0 (imageWrites w h) (snd t)"
      and b: "blockRow expand packed w ?bx j t = Ok t'"
    show "framed ?u0 (imageWrites w h) (snd t')"
    proof (rule blockRow_framed [OF b t])
      fix i assume "i < ?bx"
      then show "blockWrites (i * blockSize) (j * blockSize) w \<subseteq> imageWrites w h"
        using j by (auto simp add: imageWrites_def)
    qed
  qed
  then show ?thesis by (simp add: out)
qed

text \<open>Claim C10. Whenever \<open>decompressDxt5\<close> returns a pixel slice, the slice has
  exactly \<open>width * height\<close> elements, and every element at an index that no block store
  is aimed at is the zero pixel RGBA(0,0,0,0).\<close>

theorem decompressDxt5_length_and_unwritten_zero:
  assumes "decompressDxt5 expand packed w h = Ok out"
  shows "length out = w * h \<and> (\<forall>q<w * h. out ! q = zeroRGBA \<or> q \<in> imageWrites w h)"
  using decompressDxt5_framed [OF assms] by (auto simp add: framed_def)

theorem decompressDxt5_length_and_unwritten_zero_witness:
  "\<exists>out. decompressDxt5 Rgb565toargb8888
            (sliceOf [255, 0, 2, 0, 0, 0, 0, 0, 0, 0xF8, 0xE0, 0x07, 2, 0, 0, 0]) 4 4 = Ok out
         \<and> length out = 4 * 4 \<and> (\<forall>q<4 * 4. out ! q = zeroRGBA \<or> q \<in> imageWrites 4 4)"
proof -
  have "isOk (decompressDxt5 Rgb565toargb8888
                (sliceOf [255, 0, 2, 0, 0, 0, 0, 0, 0, 0xF8, 0xE0, 0x07, 2, 0, 0, 0]) 4 4)"
    by code_simp
  then obtain out where e: "decompressDxt5 Rgb565toargb8888
      (sliceOf [255, 0, 2, 0, 0, 0, 0, 0, 0, 0xF8, 0xE0, 0x07, 2, 0, 0, 0]) 4 4 = Ok out"
    by (auto simp add: isOk_def split: result.splits)
  from decompressDxt5_length_and_unwritten_zero [OF e] e show ?thesis by blast
qed

section \<open>The alpha index table\<close>

lemma bit_leValue: "bit (leValue bs) n \<longleftrightarrow> n div 8 < length bs \<and> bit (bs ! (n div 8)) (n mod 8)"
  using bit_horner_sum_uint_exp_iff [where 'a = 8, of bs n] by (simp add: leValue_def)

lemma and7: "(x::'a::len word) AND 7 = take_bit 3 x"
  by (simp add: take_bit_eq_mask mask_eq_exp_minus_1)

lemma bit6: "bit (6::32 word) n \<longleftrightarrow> n = 1 \<or> n = 2"
proof -
  have e: "(6::32 word) = push_bit 1 1 OR push_bit 2 1" by simp
  have "bit (push_bit 1 1 OR push_bit 2 1 :: 32 word) n \<longleftrightarrow> n = 1 \<or> n = 2"
    by (simp only: bit_or_iff bit_push_bit_iff bit_1_iff) auto
  then show ?thesis by (simp only: e)
qed

lemma bit_byte_lt: "bit (b::byte) n \<Longrightarrow> n < 8"
  using bit_imp_le_length [of b n] by simp

lemma div8_range: "8 * k \<le> n \<Longrightarrow> n < 8 * k + 8 \<Longrightarrow> n div 8 = k \<and> n mod 8 = n - 8 * (k::nat)"
proof -
  assume a: "8 * k \<le> n" "n < 8 * k + 8"
  then have "n div 8 = k" by (intro div_nat_eqI) (simp_all add: mult.commute)
  moreover have "n mod 8 = n - 8 * (n div 8)" by (simp add: minus_mult_div_eq_mod)
  ultimately show ?thesis by simp
qed

lemma bit_alphaCode2Of:
  "bit (alphaCode2Of bits) n \<longleftrightarrow> n < 16 \<and> bit (bits ! (n div 8)) (n mod 8)"
proof -
  consider "n < 8" | "8 \<le> n" "n < 16" | "16 \<le> n"
    by linarith
  then show ?thesis
  proof cases
    case 1
    then show ?thesis
      by (auto simp add: alphaCode2Of_def bit_simps bit_word_ucast_iff)
  next
    case 2
    with div8_range [of 1 n] have "n div 8 = 1" "n mod 8 = n - 8" by simp_all
    with 2 show ?thesis
      by (auto simp add: alphaCode2Of_def bit_simps bit_word_ucast_iff dest: bit_byte_lt)
  next
    case 3
    then show ?thesis by (auto dest: bit_imp_le_length)
  qed
qed

lemma bit_alphaCode1Of:
  "bit (alphaCode1Of bits) n \<longleftrightarrow> n < 32 \<and> bit (bits ! (2 + n div 8)) (n mod 8)"
proof -
  consider "n < 8" | "8 \<le> n" "n < 16" | "16 \<le> n" "n < 24" | "24 \<le> n" "n < 32" | "32 \<le> n"
    by linarith
  then show ?thesis
  proof cases
    case 1
    then show ?thesis
      by (auto simp add: alphaCode1Of_def bit_simps bit_word_ucast_iff)
  next
    case 2
    with div8_range [of 1 n] have "n div 8 = 1" "n mod 8 = n - 8" by simp_all
    with 2 show ?thesis
      by (auto simp add: alphaCode1Of_def bit_simps bit_word_ucast_iff dest: bit_byte_lt)
  next
    case 3
    with div8_range [of 2 n] have "n div 8 = 2" "n mod 8 = n - 16" by simp_all
    with 3 show ?thesis
      by (auto simp add: alphaCode1Of_def bit_simps bit_word_ucast_iff dest: bit_byte_lt)
  next
    case 4
    with div8_range [of 3 n] have "n div 8 = 3" "n mod 8 = n - 24" by simp_all
    with 4 show ?thesis
      by (auto simp add: alphaCode1Of_def bit_simps bit_word_ucast_iff dest: bit_byte_lt)
  next
    case 5
    then show ?thesis by (auto dest: bit_imp_le_length)
  qed
qed

lemma bit_leValue6:
  assumes "length bits = 6"
  shows "bit (leValue bits) n \<longleftrightarrow>
    (if n < 16 then bit (alphaCode2Of bits) n else bit (alphaCode1Of bits) (n - 16))"
proof (cases "n < 16")
  case True
  then have "n div 8 < 6" by simp
  with True show ?thesis by (simp add: bit_leValue bit_alphaCode2Of assms)
next
  case False
  then obtain m where m: "n = 16 + m" by (metis le_add_diff_inverse not_less)
  have d: "(16 + m) div 8 = 2 + m div 8" "(16 + m) mod 8 = m mod 8"
    by presburger+
  have "m < 32 \<longleftrightarrow> 2 + m div 8 < 6" by auto
  then show ?thesis
    by (simp add: m bit_leValue bit_alphaCode1Of assms d del: add_2_eq_Suc)
qed

lemma bit_straddle_low: "bit (drop_bit 15 (ucast (lo::16 word) :: 32 word)) n \<longleftrightarrow> n = 0 \<and> bit lo 15"
proof -
  have "bit lo (15 + n) \<Longrightarrow> n = 0"
    using bit_imp_le_length [of lo "15 + n"] by simp
  then show ?thesis
    by (auto simp add: bit_drop_bit_eq bit_word_ucast_iff)
qed

lemma bit_straddle_high: "bit (push_bit 1 (x::32 word) AND 6) n \<longleftrightarrow> (n = 1 \<or> n = 2) \<and> bit x (n - 1)"
proof -
  have "n = 1 \<or> n = 2 \<Longrightarrow> 1 \<le> n \<and> n < 32" by auto
  then show ?thesis
    unfolding bit_and_iff bit_push_bit_iff bit6 by auto
qed

lemma bit_straddle:
  "bit (uint (drop_bit 15 (ucast (lo::16 word) :: 32 word) OR (push_bit 1 (hi::32 word) AND 6))) n
     \<longleftrightarrow> (n = 0 \<and> bit lo 15) \<or> ((n = 1 \<or> n = 2) \<and> bit hi (n - 1))"
proof -
  have "n = 0 \<or> n = 1 \<or> n = 2 \<Longrightarrow> n < 32" by auto
  then show ?thesis
    unfolding bit_uint_iff bit_or_iff bit_straddle_low bit_straddle_high by auto
qed

lemma code_low:
  assumes "length bits = 6" "idx \<le> 12"
  shows "uint (drop_bit idx (alphaCode2Of bits) AND 7) = take_bit 3 (drop_bit idx (leValue bits))"
proof (rule bit_eqI)
  fix n
  have "n < 3 \<Longrightarrow> idx + n < 16" using assms(2) by simp
  then show "bit (uint (drop_bit idx (alphaCode2Of bits) AND 7)) n
          \<longleftrightarrow> bit (take_bit 3 (drop_bit idx (leValue bits))) n"
    by (auto simp add: and7 bit_uint_iff bit_take_bit_iff bit_drop_bit_eq bit_leValue6 assms(1))
qed

lemma code_high:
  assumes "length bits = 6" "16 \<le> idx"
  shows "uint (drop_bit (idx - 16) (alphaCode1Of bits) AND 7) = take_bit 3 (drop_bit idx (leValue bits))"
proof (rule bit_eqI)
  fix n
  have e: "\<not> idx + n < 16" "idx + n - 16 = idx - 16 + n" using assms(2) by simp_all
  have "n < 3 \<Longrightarrow> n < 32" by simp
  then show "bit (uint (drop_bit (idx - 16) (alphaCode1Of bits) AND 7)) n
          \<longleftrightarrow> bit (take_bit 3 (drop_bit idx (leValue bits))) n"
    by (auto simp add: and7 bit_uint_iff bit_take_bit_iff bit_drop_bit_eq bit_leValue6 assms(1) e)
qed

lemma code_straddle:
  assumes "length bits = 6"
  shows "uint (drop_bit 15 (ucast (alphaCode2Of bits) :: 32 word) OR (push_bit 1 (alphaCode1Of bits) AND 6))
           = take_bit 3 (drop_bit 15 (leValue bits))" (is "?code = ?spec")
proof (rule bit_eqI)
  fix n
  have s: "bit ?spec n \<longleftrightarrow> n < 3 \<and> bit (leValue bits) (15 + n)"
    by (simp add: bit_take_bit_iff bit_drop_bit_eq add.commute)
  have w: "bit (leValue bits) (15 + n) \<longleftrightarrow>
             (if n = 0 then bit (alphaCode2Of bits) 15 else bit (alphaCode1Of bits) (n - 1))"
    unfolding bit_leValue6 [OF assms(1)] by (cases n) simp_all
  have "bit ?code n \<longleftrightarrow> (n = 0 \<and> bit (alphaCode2Of bits) 15)
          \<or> ((n = 1 \<or> n = 2) \<and> bit (alphaCode1Of bits) (n - 1))"
    by (rule bit_straddle)
  also have "\<dots> \<longleftrightarrow> n < 3 \<and> bit (leValue bits) (15 + n)"
    unfolding w by (cases "n = 0") auto
  finally show "bit ?code n \<longleftrightarrow> bit ?spec n" unfolding s .
qed

lemma idx_cases: "i < 4 \<Longrightarrow> j < 4 \<Longrightarrow> 3 * (4 * j + i) \<le> 12 \<or> 3 * (4 * j + i) = 15 \<or> 16 \<le> 3 * (4 * j + (i::nat))"
  by presburger

lemma uint_alphaCode2Of:
  assumes "length bits = 6"
  shows "uint (alphaCode2Of bits) = leValue (take 2 bits)"
proof (rule bit_eqI)
  fix n :: nat
  have "n < 16 \<longleftrightarrow> n div 8 < 2" by presburger
  then show "bit (uint (alphaCode2Of bits)) n \<longleftrightarrow> bit (leValue (take 2 bits)) n"
    using assms by (auto simp add: bit_uint_iff bit_alphaCode2Of bit_leValue)
qed

lemma uint_alphaCode1Of:
  assumes "length bits = 6"
  shows "uint (alphaCode1Of bits) = leValue (drop 2 bits)"
proof (rule bit_eqI)
  fix n :: nat
  have "n < 32 \<longleftrightarrow> n div 8 < 4" by presburger
  then show "bit (uint (alphaCode1Of bits)) n \<longleftrightarrow> bit (leValue (drop 2 bits)) n"
    using assms by (auto simp add: bit_uint_iff bit_alphaCode1Of bit_leValue)
qed

text \<open>Claim C4. For the six bytes \<open>bits\<close> of a block's alpha index table and every
  texel \<open>(i, j)\<close> of the block: the low word is bytes 0-1 and the high word bytes 2-5 of
  \<open>bits\<close>, little-endian, and the code that the three branches of \<open>alphaCodeAt\<close> extract
  (a shift of the low word up to index 12, the straddling case at index 15, a shift of
  the high word from index 18) is the three bits at position \<open>3 * (4 * j + i)\<close> of the
  48-bit little-endian value of \<open>bits\<close>.\<close>

theorem alphaCode_bits_of_table:
  assumes "length bits = 6" "i < 4" "j < 4"
  shows "uint (alphaCode2Of bits) = leValue (take 2 bits)
       \<and> uint (alphaCode1Of bits) = leValue (drop 2 bits)
       \<and> (3 * (4 * j + i) \<le> 12 \<longrightarrow>
            alphaCodeAt (alphaCode1Of bits) (alphaCode2Of bits) i j
              = uint (drop_bit (3 * (4 * j + i)) (alphaCode2Of bits) AND 7))
       \<and> (3 * (4 * j + i) = 15 \<longrightarrow>
            alphaCodeAt (alphaCode1Of bits) (alphaCode2Of bits) i j
              = uint (drop_bit 15 (ucast (alphaCode2Of bits) :: 32 word)
                        OR (push_bit 1 (alphaCode1Of bits) AND 6)))
       \<and> (18 \<le> 3 * (4 * j + i) \<longrightarrow>
            alphaCodeAt (alphaCode1Of bits) (alphaCode2Of bits) i j
              = uint (drop_bit (3 * (4 * j + i) - 16) (alphaCode1Of bits) AND 7))
       \<and> alphaCodeAt (alphaCode1Of bits) (alphaCode2Of bits) i j
           = take_bit 3 (drop_bit (3 * (4 * j + i)) (leValue bits))"
proof -
  let ?idx = "3 * (4 * j + i)"
  let ?code = "alphaCodeAt (alphaCode1Of bits) (alphaCode2Of bits) i j"
  have low: "?code = uint (drop_bit ?idx (alphaCode2Of bits) AND 7)" if "?idx \<le> 12"
    using that by (simp add: alphaCodeAt_def Let_def)
  have mid: "?code = uint (drop_bit 15 (ucast (alphaCode2Of bits) :: 32 word)
                             OR (push_bit 1 (alphaCode1Of bits) AND 6))" if "?idx = 15"
    by (simp only: alphaCodeAt_def Let_def that) simp
  have high: "?code = uint (drop_bit (?idx - 16) (alphaCode1Of bits) AND 7)" if "16 \<le> ?idx"
    using that by (simp add: alphaCodeAt_def Let_def)
  consider "?idx \<le> 12" | "?idx = 15" | "16 \<le> ?idx" using idx_cases [OF assms(2,3)] by blast
  then have table: "?code = take_bit 3 (drop_bit ?idx (leValue bits))"
  proof cases
    case 1
    then show ?thesis using code_low [OF assms(1) 1] low by simp
  next
    case 2
    then show ?thesis using code_straddle [OF assms(1)] mid by (simp only: 2)
  next
    case 3
    then show ?thesis using code_high [OF assms(1) 3] high by simp
  qed
  have "uint (alphaCode2Of bits) = leValue (take 2 bits)"
    by (rule uint_alphaCode2Of [OF assms(1)])
  moreover have "uint (alphaCode1Of bits) = leValue (drop 2 bits)"
    by (rule uint_alphaCode1Of [OF assms(1)])
  moreover have "18 \<le> ?idx \<longrightarrow> ?code = uint (drop_bit (?idx - 16) (alphaCode1Of bits) AND 7)"
    using high by simp
  ultimately show ?thesis using low mid table by blast
qed

theorem alphaCode_bits_of_table_witness:
  "length [0x88, 0x46, 0x13, 0, 0xFF, 0x10 :: byte] = 6 \<and> (1::nat) < 4 \<and> (1::nat) < 4
   \<and> 3 * (4 * 1 + 1) = (15::nat)
   \<and> alphaCodeAt (alphaCode1Of [0x88, 0x46, 0x13, 0, 0xFF, 0x10])
                   (alphaCode2Of [0x88, 0x46, 0x13, 0, 0xFF, 0x10]) 1 1
        = uint (drop_bit 15 (ucast (alphaCode2Of [0x88, 0x46, 0x13, 0, 0xFF, 0x10]) :: 32 word)
                  OR (push_bit 1 (alphaCode1Of [0x88, 0x46, 0x13, 0, 0xFF, 0x10]) AND 6))
   \<and> alphaCodeAt (alphaCode1Of [0x88, 0x46, 0x13, 0, 0xFF, 0x10])
                   (alphaCode2Of [0x88, 0x46, 0x13, 0, 0xFF, 0x10]) 1 1
        = take_bit 3 (drop_bit (3 * (4 * 1 + 1)) (leValue [0x88, 0x46, 0x13, 0, 0xFF, 0x10]))"
  using alphaCode_bits_of_table [of "[0x88, 0x46, 0x13, 0, 0xFF, 0x10]" 1 1] by simp

section \<open>Alpha and colour arithmetic\<close>

lemma finalAlphaOf_7step:
  assumes "alpha1 < alpha0" "2 \<le> c" "c \<le> 7"
  shows "unat (finalAlphaOf alpha0 alpha1 c)
           = (((8 - nat c) * unat alpha0 + (nat c - 1) * unat alpha1) mod 256) div 7"
proof -
  have c: "c = 2 \<or> c = 3 \<or> c = 4 \<or> c = 5 \<or> c = 6 \<or> c = 7" using assms(2,3) by presburger
  then show ?thesis
    using assms(1)
    by (elim disjE) (simp_all add: finalAlphaOf_def unat_div unat_word_ariths mod_simps)
qed

lemma finalColourOf_code2:
  "unat (R (finalColourOf colour0 colour1 2)) = ((2 * unat (R colour0) + unat (R colour1)) mod 256) div 3"
  by (simp add: finalColourOf_def unat_div unat_word_ariths mod_simps)

text \<open>Claim C2, at \<open>alpha0 = 255\<close>, \<open>alpha1 = 0\<close> and code 2. The exact value of
  \<open>((8 - 2) * 255 + (2 - 1) * 0) / 7\<close> is 218; the code computes the sum in 8 bits,
  where \<open>6 * 255\<close> is 250, and returns 35; so does the decoder for the first texel of
  a 4x4 image whose block starts with the bytes 255, 0, 2.\<close>

theorem finalAlphaOf_255_0_code2:
  "finalAlphaOf 255 0 2 = 35
   \<and> (case decompressDxt5 Rgb565toargb8888
             (sliceOf [255, 0, 2, 0, 0, 0, 0, 0, 0, 0xF8, 0xE0, 0x07, 2, 0, 0, 0]) 4 4 of
        Ok out \<Rightarrow> A (out ! 0) = 35
      | _ \<Rightarrow> False)"
  by code_simp

text \<open>Claim C3, at \<open>c0 = (255, 0, 0)\<close>, \<open>c1 = (0, 255, 0)\<close> and code 2. The exact
  value of \<open>(2 * c0 + c1) / 3\<close> is (170, 85, 0); the code computes the red sum in 8
  bits, where \<open>2 * 255\<close> is 254, and returns (84, 85, 0).\<close>

theorem finalColourOf_red_green_code2:
  "finalColourOf \<lparr>R = 255, G = 0, B = 0, A = 0\<rparr> \<lparr>R = 0, G = 255, B = 0, A = 0\<rparr> 2
     = \<lparr>R = 84, G = 85, B = 0, A = 0\<rparr>"
  by (simp add: finalColourOf_def)

section \<open>When the BC3 decoder returns\<close>

lemma storeTexel_no_Err: "storeTexel offsetX offsetY w i j c u \<noteq> Err e"
  by (simp add: storeTexel_def Let_def)

lemma texelLoops_no_Err: "texelLoops tx offsetX offsetY w u \<noteq> Err e"
  unfolding texelLoops_def
  by (intro forM_no_Err storeTexel_no_Err)

lemma decompressDxt5Block_no_Err:
  "decompressDxt5Block expand packed offsetX offsetY w u \<noteq> Err e"
  by (cases "16 \<le> cap packed")
     (simp_all add: decompressDxt5Block_bytes decompressDxt5Block_short texelLoops_no_Err)

lemma blockRow_no_Err: "blockRow expand packed w blockCountX j st \<noteq> Err e"
proof -
  have "forM [0..<blockCountX] (\<lambda>i unpacked.
            rbind (sliceFrom packed (fst st + i * 16)) (\<lambda>p.
              decompressDxt5Block expand p (i * blockSize) (j * blockSize) w unpacked)) (snd st)
          \<noteq> Err e"
    by (rule forM_no_Err)
       (simp add: sliceFrom_def decompressDxt5Block_no_Err)
  then show ?thesis
    by (auto simp add: blockRow_def rbind_Err_iff)
qed

lemma decompressDxt5_no_Err: "decompressDxt5 expand packed w h \<noteq> Err e"
proof -
  have "forM [0..<(h + 3) div blockSize] (blockRow expand packed w ((w + 3) div blockSize))
          (0, replicate (w * h) zeroRGBA) \<noteq> Err e"
    by (rule forM_no_Err) (rule blockRow_no_Err)
  then show ?thesis
    by (auto simp add: decompressDxt5_def Let_def rbind_Err_iff)
qed

lemma forM_Ok_member:
  assumes "forM ks body s = Ok s'" "P s" "k \<in> set ks"
    and "\<And>k t t'. k \<in> set ks \<Longrightarrow> P t \<Longrightarrow> body k t = Ok t' \<Longrightarrow> P t'"
  shows "\<exists>t t'. P t \<and> body k t = Ok t'"
  using assms
proof (induction ks arbitrary: s)
  case Nil
  then show ?case by simp
next
  case (Cons a ks)
  from Cons.prems(1) obtain t where t: "body a s = Ok t" "forM ks body t = Ok s'"
    by (auto simp add: rbind_Ok_iff)
  show ?case
  proof (cases "k = a")
    case True
    then show ?thesis using t(1) Cons.prems(2) by blast
  next
    case False
    then have k: "k \<in> set ks" using Cons.prems(3) by simp
    have "P t" using Cons.prems(4) [of a s t] Cons.prems(2) t(1) by simp
    moreover have "\<And>k' u u'. k' \<in> set ks \<Longrightarrow> P u \<Longrightarrow> body k' u = Ok u' \<Longrightarrow> P u'"
      using Cons.prems(4) by auto
    ultimately show ?thesis using Cons.IH [OF t(2) _ k] by blast
  qed
qed

lemma framed_UNIV: "framed u0 UNIV u \<longleftrightarrow> length u = length u0"
  by (simp add: framed_def)

lemma texelLoops_row_beyond:
  assumes "length u = w * h" "0 < w" "offsetY \<le> h" "h < offsetY + blockSize"
  shows "texelLoops tx 0 offsetY w u \<noteq> Ok u'"
proof
  assume ok: "texelLoops tx 0 offsetY w u = Ok u'"
  let ?j = "h - offsetY"
  have j: "?j \<in> set [0..<blockSize]" using assms(3,4) by auto
  let ?P = "\<lambda>t. length t = w * h"
  have inner: "?P t'"
    if "forM [0..<blockSize] (\<lambda>i. storeTexel 0 offsetY w i j (tx i j)) t = Ok t'" "?P t" for j t t'
  proof -
    have "framed t UNIV t'"
      by (rule forM_invariant [where P = "framed t UNIV", OF that(1) framed_refl])
         (rule storeTexel_framed, simp_all)
    then show ?thesis using that(2) by (simp add: framed_UNIV)
  qed
  from forM_Ok_member [where P = ?P, OF ok [unfolded texelLoops_def] assms(1) j] inner
  obtain t t' where t: "length t = w * h"
    "forM [0..<blockSize] (\<lambda>i. storeTexel 0 offsetY w i ?j (tx i ?j)) t = Ok t'"
    by blast
  have "storeTexel 0 offsetY w 0 ?j (tx 0 ?j) t = Panic IndexOutOfRange"
    using assms(2,3) t(1) by (simp add: storeTexel_def Let_def mult.commute)
  then have "forM [0..<blockSize] (\<lambda>i. storeTexel 0 offsetY w i ?j (tx i ?j)) t = Panic IndexOutOfRange"
    by (simp add: blockSize_def upt_conv_Cons)
  with t(2) show False by simp
qed

lemma decompressDxt5_Ok_height:
  assumes "decompressDxt5 expand packed w h = Ok out"
  shows "w = 0 \<or> h mod 4 = 0"
proof (rule ccontr)
  assume "\<not> (w = 0 \<or> h mod 4 = 0)"
  then have w: "0 < w" and h: "h mod 4 \<noteq> 0" by simp_all
  let ?u0 = "replicate (w * h) zeroRGBA"
  let ?bx = "(w + 3) div blockSize"
  let ?by = "(h + 3) div blockSize"
  let ?j = "h div 4"
  let ?P = "\<lambda>st::nat \<times> RGBA list. length (snd st) = w * h"
  from assms obtain st where
    loop: "forM [0..<?by] (blockRow expand packed w ?bx) (0, ?u0) = Ok st"
    by (auto simp add: decompressDxt5_def Let_def rbind_Ok_iff)
  have j: "?j \<in> set [0..<?by]" using h by (simp add: blockSize_def) presburger
  have rowP: "?P t'" if "blockRow expand packed w ?bx j t = Ok t'" "?P t" for j t t'
    using blockRow_framed [OF that(1), of "snd t" UNIV] that(2)
    by (simp add: framed_UNIV framed_refl)
  from forM_Ok_member [where P = ?P, OF loop _ j] rowP
  obtain t t' where t: "length (snd t) = w * h" "blockRow expand packed w ?bx ?j t = Ok t'"
    by auto
  from t(2) obtain u' where
    row: "forM [0..<?bx] (\<lambda>i unpacked.
              rbind (sliceFrom packed (fst t + i * 16)) (\<lambda>p.
                decompressDxt5Block expand p (i * blockSize) (?j * blockSize) w unpacked))
            (snd t) = Ok u'"
    by (auto simp add: blockRow_def rbind_Ok_iff)
  have i: "0 \<in> set [0..<?bx]" using w by (simp add: blockSize_def)
  have blkP: "length v' = w * h"
    if "rbind (sliceFrom packed (fst t + i * 16)) (\<lambda>p.
          decompressDxt5Block expand p (i * blockSize) (?j * blockSize) w v) = Ok v'"
       "length v = w * h" for i v v'
  proof -
    from that(1) obtain p where
      "decompressDxt5Block expand p (i * blockSize) (?j * blockSize) w v = Ok v'"
      by (auto simp add: rbind_Ok_iff)
    from decompressDxt5Block_framed [OF this, of v UNIV] that(2)
    show ?thesis by (simp add: framed_UNIV framed_refl)
  qed
  from forM_Ok_member [where P = "\<lambda>v. length v = w * h", OF row t(1) i] blkP
  obtain v v' where v: "length v = w * h"
    "rbind (sliceFrom packed (fst t + 0 * 16)) (\<lambda>p.
          decompressDxt5Block expand p (0 * blockSize) (?j * blockSize) w v) = Ok v'"
    by blast
  from v(2) obtain p where p: "decompressDxt5Block expand p 0 (?j * blockSize) w v = Ok v'"
    by (auto simp add: rbind_Ok_iff)
  have c: "16 \<le> cap p"
    using p decompressDxt5Block_short [of p expand 0 "?j * blockSize" w v] by (cases "16 \<le> cap p") simp_all
  have "?j * blockSize \<le> h" "h < ?j * blockSize + blockSize"
    using h by (simp_all add: blockSize_def)
  from texelLoops_row_beyond [OF v(1) w this]
  show False using p by (simp add: decompressDxt5Block_bytes [OF c])
qed

lemma forM_Ok:
  assumes "P s"
    and "\<And>k t. k \<in> set ks \<Longrightarrow> P t \<Longrightarrow> \<exists>t'. body k t = Ok t' \<and> P t'"
  shows "\<exists>s'. forM ks body s = Ok s' \<and> P s'"
  using assms
proof (induction ks arbitrary: s)
  case Nil
  then show ?case by simp
next
  case (Cons k ks)
  from Cons.prems(2) [of k s] Cons.prems(1)
  obtain t where t: "body k s = Ok t" "P t" by auto
  have "\<exists>s'. forM ks body t = Ok s' \<and> P s'"
    by (rule Cons.IH [OF t(2)]) (use Cons.prems(2) in auto)
  then show ?case using t(1) by simp
qed

lemma storeTexel_Ok:
  assumes "length u = w * h" "offsetY + j < h"
  shows "\<exists>u'. storeTexel offsetX offsetY w i j c u = Ok u' \<and> length u' = w * h"
proof (cases "offsetX + i < w")
  case True
  have "(offsetY + j) * w + (offsetX + i) < (offsetY + j) * w + w" using True by simp
  also have "\<dots> = Suc (offsetY + j) * w" by simp
  also have "\<dots> \<le> h * w" using assms(2) by (intro mult_le_mono1) simp
  finally have "(offsetY + j) * w + (offsetX + i) < length u"
    using assms(1) by (simp add: mult.commute)
  then show ?thesis using True assms(1) by (simp add: storeTexel_def Let_def)
next
  case False
  then show ?thesis using assms(1) by (simp add: storeTexel_def)
qed

lemma texelLoops_Ok:
  assumes "length u = w * h" "offsetY + blockSize \<le> h"
  shows "\<exists>u'. texelLoops tx offsetX offsetY w u = Ok u' \<and> length u' = w * h"
  unfolding texelLoops_def
proof (rule forM_Ok [where P = "\<lambda>t. length t = w * h", OF assms(1)])
  fix j and t :: "RGBA list"
  assume j: "j \<in> set [0..<blockSize]" and t: "length t = w * h"
  show "\<exists>t'. forM [0..<blockSize] (\<lambda>i. storeTexel offsetX offsetY w i j (tx i j)) t = Ok t'
             \<and> length t' = w * h"
  proof (rule forM_Ok [where P = "\<lambda>t. length t = w * h", OF t])
    fix i and v :: "RGBA list"
    assume "length v = w * h"
    moreover have "offsetY + j < h" using j assms(2) by simp
    ultimately show "\<exists>v'. storeTexel offsetX offsetY w i j (tx i j) v = Ok v' \<and> length v' = w * h"
      by (rule storeTexel_Ok)
  qed
qed

lemma blockRow_Ok:
  assumes "length (snd st) = w * h" "j * blockSize + blockSize \<le> h"
    "fst st + blockCountX * 16 \<le> len packed" "len packed \<le> cap packed"
  shows "\<exists>u'. blockRow expand packed w blockCountX j st = Ok (fst st + blockCountX * 16, u')
              \<and> length u' = w * h"
proof -
  have "\<exists>u'. forM [0..<blockCountX] (\<lambda>i unpacked.
            rbind (sliceFrom packed (fst st + i * 16)) (\<lambda>p.
              decompressDxt5Block expand p (i * blockSize) (j * blockSize) w unpacked)) (snd st)
          = Ok u' \<and> length u' = w * h"
  proof (rule forM_Ok [where P = "\<lambda>t. length t = w * h", OF assms(1)])
    fix i and t :: "RGBA list"
    assume i: "i \<in> set [0..<blockCountX]" and t: "length t = w * h"
    from i have "Suc i \<le> blockCountX" by simp
    then have "Suc i * 16 \<le> blockCountX * 16" by (rule mult_le_mono1)
    then have a: "fst st + i * 16 + 16 \<le> len packed" using assms(3) by simp
    then have c: "16 \<le> cap \<lparr>backing = drop (fst st + i * 16) (backing packed),
                              len = len packed - (fst st + i * 16)\<rparr>"
      using assms(4) by (simp add: cap_def)
    show "\<exists>t'. rbind (sliceFrom packed (fst st + i * 16)) (\<lambda>p.
              decompressDxt5Block expand p (i * blockSize) (j * blockSize) w t) = Ok t'
            \<and> length t' = w * h"
      using a texelLoops_Ok [OF t assms(2)]
      by (simp add: sliceFrom_def decompressDxt5Block_bytes [OF c])
  qed
  then show ?thesis by (auto simp add: blockRow_def)
qed

lemma rows_Ok:
  assumes "len packed \<le> cap packed"
  shows "length (snd st) = w * h \<Longrightarrow> (\<forall>j\<in>set ks. j * blockSize + blockSize \<le> h) \<Longrightarrow>
         fst st + length ks * (blockCountX * 16) \<le> len packed \<Longrightarrow>
         \<exists>st'. forM ks (blockRow expand packed w blockCountX) st = Ok st' \<and> length (snd st') = w * h"
proof (induction ks arbitrary: st)
  case Nil
  then show ?case by simp
next
  case (Cons j ks)
  from Cons.prems have "j * blockSize + blockSize \<le> h" "fst st + blockCountX * 16 \<le> len packed"
    by simp_all
  from blockRow_Ok [OF Cons.prems(1) this assms, where expand = expand]
  obtain u' where r: "blockRow expand packed w blockCountX j st = Ok (fst st + blockCountX * 16, u')"
    and u': "length u' = w * h" by blast
  have "\<exists>st'. forM ks (blockRow expand packed w blockCountX) (fst st + blockCountX * 16, u') = Ok st'
          \<and> length (snd st') = w * h"
    by (rule Cons.IH) (use Cons.prems u' in simp_all)
  then show ?case using r by simp
qed

lemma decompressDxt5_returns:
  assumes "h mod 4 = 0" "((w + 3) div 4) * ((h + 3) div 4) * 16 \<le> len packed"
    "len packed \<le> cap packed"
  shows "\<exists>out. decompressDxt5 expand packed w h = Ok out"
proof -
  have rows: "\<forall>j\<in>set [0..<(h + 3) div 4]. j * blockSize + blockSize \<le> h"
    using assms(1) by (auto simp add: blockSize_def)
  have bytes: "fst (0::nat, replicate (w * h) zeroRGBA)
          + length [0..<(h + 3) div 4] * ((w + 3) div 4 * 16) \<le> len packed"
    using assms(2) by (simp add: mult.commute mult.left_commute)
  have "length (snd (0::nat, replicate (w * h) zeroRGBA)) = w * h" by simp
  from rows_Ok [OF assms(3) this rows bytes, where expand = expand]
  obtain st' where "forM [0..<(h + 3) div 4] (blockRow expand packed w ((w + 3) div 4))
                      (0, replicate (w * h) zeroRGBA) = Ok st'"
    by blast
  then show ?thesis by (simp add: decompressDxt5_def Let_def blockSize_def)
qed

text \<open>Claim C1, at a 5x5 image with its four blocks present. The store compares the
  column with the width but not the row with the height: the second block row
  reaches row 5, index 25 of a slice of 25 pixels, and the decoder panics.\<close>

theorem decompressDxt5_5x5_panics:
  "decompressDxt5 Rgb565toargb8888 (sliceOf (replicate 64 0)) 5 5 = Panic IndexOutOfRange"
  by code_simp

text \<open>Claim C5, at a 4x4 image, which needs 16 bytes, and an empty input. With no
  capacity the slice expression \<open>packed[:1]\<close> panics; with spare capacity behind the
  empty slice the decoder reads the block from it and returns pixels. Neither run
  returns an error.\<close>

theorem decompressDxt5_empty_input:
  "decompressDxt5 Rgb565toargb8888 (sliceOf []) 4 4 = Panic SliceBoundsOutOfRange
   \<and> decompressDxt5 Rgb565toargb8888 \<lparr>backing = replicate 512 0, len = 0\<rparr> 4 4
       = Ok (replicate 16 zeroRGBA)"
  by code_simp

section \<open>Dispatch\<close>

lemma compressionType_distinct:
  "compressionTypeDXT1 \<noteq> compressionTypeNone" "compressionTypeDXT5 \<noteq> compressionTypeNone"
  "compressionTypeDXT5 \<noteq> compressionTypeDXT1"
  by (simp_all add: compressionTypeNone_def compressionTypeDXT1_def compressionTypeDXT5_def le32_def)

text \<open>Claim C6. When the header has been read, \<open>Decode\<close> goes by its \<open>fourCC\<close>: 0
  to the uncompressed path, the tag DXT1 to the path of the external BC1 decoder, the
  tag DXT5 to the path of \<open>decompressDxt5\<close>, and any other tag to an error that carries
  the tag, with no surface.\<close>

theorem Decode_dispatch:
  assumes "readHeader d r = Ok (h, r')"
  shows "(fourCC (pixelFormat h) = 0 \<longrightarrow> Decode d spare r = decodeUncompressedDDS d h r')
       \<and> (fourCC (pixelFormat h) = le32 [0x44, 0x58, 0x54, 0x31]
            \<longrightarrow> Decode d spare r = decodeDXT1DDS d spare h r')
       \<and> (fourCC (pixelFormat h) = le32 [0x44, 0x58, 0x54, 0x35]
            \<longrightarrow> Decode d spare r = decodeDXT5DDS d spare h r')
       \<and> (fourCC (pixelFormat h) \<notin> {0, le32 [0x44, 0x58, 0x54, 0x31], le32 [0x44, 0x58, 0x54, 0x35]}
            \<longrightarrow> Decode d spare r = Err (UnsupportedCompressionFormat (fourCC (pixelFormat h))))"
  using compressionType_distinct
  by (simp add: Decode_def assms compressionTypeNone_def compressionTypeDXT1_def
        compressionTypeDXT5_def)

theorem Decode_dispatch_witness:
  "Decode (fixedHeaderDeps (rgba32Header 0 0x41 1 1)) [] \<lparr>pending = [1, 2, 3, 4], fault = None\<rparr>
     = decodeUncompressedDDS (fixedHeaderDeps (rgba32Header 0 0x41 1 1)) (rgba32Header 0 0x41 1 1)
         \<lparr>pending = [1, 2, 3, 4], fault = None\<rparr>
   \<and> Decode (fixedHeaderDeps (rgba32Header 0x31545844 0x4 4 4)) [] \<lparr>pending = [], fault = None\<rparr>
     = decodeDXT1DDS (fixedHeaderDeps (rgba32Header 0x31545844 0x4 4 4)) []
         (rgba32Header 0x31545844 0x4 4 4) \<lparr>pending = [], fault = None\<rparr>
   \<and> Decode (fixedHeaderDeps (rgba32Header 0x35545844 0x4 4 4)) [] \<lparr>pending = replicate 16 0, fault = None\<rparr>
     = decodeDXT5DDS (fixedHeaderDeps (rgba32Header 0x35545844 0x4 4 4)) []
         (rgba32Header 0x35545844 0x4 4 4) \<lparr>pending = replicate 16 0, fault = None\<rparr>
   \<and> Decode (fixedHeaderDeps (rgba32Header 0x33545844 0x4 4 4)) [] \<lparr>pending = [], fault = None\<rparr>
     = Err (UnsupportedCompressionFormat 0x33545844)"
proof -
  have rh: "readHeader (fixedHeaderDeps h) r = Ok (h, r)" for h r
    by (simp add: fixedHeaderDeps_def)
  have tags: "le32 [0x44, 0x58, 0x54, 0x31] = 0x31545844" "le32 [0x44, 0x58, 0x54, 0x35] = 0x35545844"
    by (simp_all add: le32_def)
  have f: "fourCC (pixelFormat (rgba32Header tag fl w h)) = tag" for tag fl w h
    by (simp add: rgba32Header_def)
  show ?thesis
    using Decode_dispatch [OF rh, of "rgba32Header 0 0x41 1 1" "[]" "\<lparr>pending = [1, 2, 3, 4], fault = None\<rparr>"]
      Decode_dispatch [OF rh, of "rgba32Header 0x31545844 0x4 4 4" "[]" "\<lparr>pending = [], fault = None\<rparr>"]
      Decode_dispatch [OF rh, of "rgba32Header 0x35545844 0x4 4 4" "[]" "\<lparr>pending = replicate 16 0, fault = None\<rparr>"]
      Decode_dispatch [OF rh, of "rgba32Header 0x33545844 0x4 4 4" "[]" "\<lparr>pending = [], fault = None\<rparr>"]
    by (simp add: f tags)
qed

section \<open>Pixel-format flags\<close>

lemma flags_both:
  "(x AND (a OR b) = (a OR b)) \<longleftrightarrow> (x AND a = a \<and> x AND b = b)" for x :: "32 word"
  by (auto simp add: bit_eq_iff bit_simps)

text \<open>Claim C7. \<open>decodeUncompressedDDS\<close> fails with the unsupported-pixel-format error,
  which carries the flags, whenever the alpha-present or the RGB-present flag is
  missing; so it returns a surface only when both are set.\<close>

theorem decodeUncompressedDDS_needs_both_flags:
  "(\<not> (flags (pixelFormat h) AND pfAlphaPixels d = pfAlphaPixels d
        \<and> flags (pixelFormat h) AND pfRGB d = pfRGB d)
      \<longrightarrow> decodeUncompressedDDS d h r = Err (UnsupportedPixelFormat (flags (pixelFormat h))))
   \<and> (\<forall>s. decodeUncompressedDDS d h r = Ok s
      \<longrightarrow> flags (pixelFormat h) AND pfAlphaPixels d = pfAlphaPixels d
        \<and> flags (pixelFormat h) AND pfRGB d = pfRGB d)"
proof -
  let ?both = "flags (pixelFormat h) AND pfAlphaPixels d = pfAlphaPixels d
                 \<and> flags (pixelFormat h) AND pfRGB d = pfRGB d"
  have a: "decodeUncompressedDDS d h r = Err (UnsupportedPixelFormat (flags (pixelFormat h)))"
    if "\<not> ?both"
    using that flags_both [of "flags (pixelFormat h)" "pfAlphaPixels d" "pfRGB d"]
    by (simp add: decodeUncompressedDDS_def Let_def)
  have b: ?both if "decodeUncompressedDDS d h r = Ok s" for s
  proof (rule ccontr)
    assume "\<not> ?both"
    from a [OF this] that show False by simp
  qed
  from a b show ?thesis by blast
qed

theorem decodeUncompressedDDS_needs_both_flags_witness:
  "decodeUncompressedDDS (fixedHeaderDeps (rgba32Header 0 0x40 1 1))
       (rgba32Header 0 0x40 1 1) \<lparr>pending = [1, 2, 3, 4], fault = None\<rparr>
     = Err (UnsupportedPixelFormat 0x40)
   \<and> decodeUncompressedDDS (fixedHeaderDeps (rgba32Header 0 0x41 1 1))
       (rgba32Header 0 0x41 1 1) \<lparr>pending = [1, 2, 3, 4], fault = None\<rparr>
     = Ok (PullImage \<lparr>hdr = rgba32Header 0 0x41 1 1, buf = [1, 2, 3, 4],
             rBit = 16, gBit = 8, bBit = 0, aBit = 24, stride = 4, pitch = 4\<rparr>)
   \<and> (0x41 :: 32 word) AND 0x1 = 0x1 \<and> (0x41 :: 32 word) AND 0x40 = 0x40"
proof -
  have ok: "decodeUncompressedDDS (fixedHeaderDeps (rgba32Header 0 0x41 1 1))
       (rgba32Header 0 0x41 1 1) \<lparr>pending = [1, 2, 3, 4], fault = None\<rparr>
     = Ok (PullImage \<lparr>hdr = rgba32Header 0 0x41 1 1, buf = [1, 2, 3, 4],
             rBit = 16, gBit = 8, bBit = 0, aBit = 24, stride = 4, pitch = 4\<rparr>)"
    by code_simp
  have miss: "\<not> (flags (pixelFormat (rgba32Header 0 0x40 1 1))
                    AND pfAlphaPixels (fixedHeaderDeps (rgba32Header 0 0x40 1 1))
                  = pfAlphaPixels (fixedHeaderDeps (rgba32Header 0 0x40 1 1))
               \<and> flags (pixelFormat (rgba32Header 0 0x40 1 1))
                    AND pfRGB (fixedHeaderDeps (rgba32Header 0 0x40 1 1))
                  = pfRGB (fixedHeaderDeps (rgba32Header 0 0x40 1 1)))"
    by (simp add: rgba32Header_def fixedHeaderDeps_def)
  from decodeUncompressedDDS_needs_both_flags
         [of "rgba32Header 0 0x40 1 1" "fixedHeaderDeps (rgba32Header 0 0x40 1 1)"
             "\<lparr>pending = [1, 2, 3, 4], fault = None\<rparr>"] miss
  have "decodeUncompressedDDS (fixedHeaderDeps (rgba32Header 0 0x40 1 1))
       (rgba32Header 0 0x40 1 1) \<lparr>pending = [1, 2, 3, 4], fault = None\<rparr>
     = Err (UnsupportedPixelFormat (flags (pixelFormat (rgba32Header 0 0x40 1 1))))"
    by blast
  moreover from decodeUncompressedDDS_needs_both_flags
         [of "rgba32Header 0 0x41 1 1" "fixedHeaderDeps (rgba32Header 0 0x41 1 1)"
             "\<lparr>pending = [1, 2, 3, 4], fault = None\<rparr>"] ok
  have "flags (pixelFormat (rgba32Header 0 0x41 1 1))
          AND pfAlphaPixels (fixedHeaderDeps (rgba32Header 0 0x41 1 1))
        = pfAlphaPixels (fixedHeaderDeps (rgba32Header 0 0x41 1 1))
      \<and> flags (pixelFormat (rgba32Header 0 0x41 1 1))
          AND pfRGB (fixedHeaderDeps (rgba32Header 0 0x41 1 1))
        = pfRGB (fixedHeaderDeps (rgba32Header 0 0x41 1 1))"
    by blast
  ultimately show ?thesis
    using ok by (simp add: rgba32Header_def fixedHeaderDeps_def)
qed

section \<open>The uncompressed accessor\<close>

lemma pixel_fits_row:
  assumes "x < W"
  shows "x * (b div 8) + (b + 7) div 8 \<le> (W * b + 7) div (8::nat)"
proof -
  have "x * (8 * (b div 8)) \<le> x * b"
    by (intro mult_le_mono2) simp
  then have a: "8 * (x * (b div 8)) \<le> x * b"
    by (simp add: mult.left_commute)
  have c: "8 * ((b + 7) div 8) \<le> b + 7" by simp
  have "Suc x * b \<le> W * b" using assms by (intro mult_le_mono1) simp
  then have e: "x * b + b \<le> W * b" by simp
  have "8 * (x * (b div 8) + (b + 7) div 8) = 8 * (x * (b div 8)) + 8 * ((b + 7) div 8)"
    by (simp add: distrib_left)
  also have "\<dots> \<le> x * b + (b + 7)" using a c by (rule add_mono)
  also have "\<dots> \<le> W * b + 7" using e by simp
  finally show ?thesis by simp
qed

lemma pixel_fits_buffer:
  assumes "x < W" "y < H"
  shows "((W * b + 7) div 8) * y + (b div 8) * x + (b + 7) div 8 \<le> ((W * b + 7) div 8) * (H::nat)"
proof -
  let ?P = "(W * b + 7) div 8"
  have "(b div 8) * x + (b + 7) div 8 \<le> ?P"
    using pixel_fits_row [OF assms(1), of b] by (simp add: mult.commute)
  then have "?P * y + (b div 8) * x + (b + 7) div 8 \<le> ?P * y + ?P" by simp
  also have "\<dots> = ?P * Suc y" by simp
  also have "\<dots> \<le> ?P * H" using assms(2) by (intro mult_le_mono2) simp
  finally show ?thesis .
qed

lemma At_in_bounds:
  assumes dec: "decodeUncompressedDDS d h r = Ok (PullImage im)"
    and nowrap: "unat (width h) * unat (rgbBitCount (pixelFormat h)) + 7 < 2 ^ 32"
      "((unat (width h) * unat (rgbBitCount (pixelFormat h)) + 7) div 8) * unat (height h) < 2 ^ 32"
    and xy: "x < unat (width h)" "y < unat (height h)"
  shows "pitch im = (unat (width h) * unat (rgbBitCount (pixelFormat h)) + 7) div 8
       \<and> stride im = unat (rgbBitCount (pixelFormat h)) div 8
       \<and> At im x y =
           (let pf = pixelFormat h;
                dd = word_of_int (leValue (take ((unat (rgbBitCount pf) + 7) div 8)
                                     (drop (pitch im * y + stride im * x) (pending r))))
            in Ok \<lparr>R = ucast (drop_bit (lowestSetBit (rBitMask pf)) (dd AND rBitMask pf)),
                   G = ucast (drop_bit (lowestSetBit (gBitMask pf)) (dd AND gBitMask pf)),
                   B = ucast (drop_bit (lowestSetBit (bBitMask pf)) (dd AND bBitMask pf)),
                   A = ucast (drop_bit (lowestSetBit (aBitMask pf)) (dd AND aBitMask pf))\<rparr>)"
proof -
  let ?pf = "pixelFormat h"
  let ?W = "unat (width h)" and ?H = "unat (height h)" and ?b = "unat (rgbBitCount ?pf)"
  let ?P = "(?W * ?b + 7) div 8"
  let ?pw = "(width h * rgbBitCount ?pf + 7) div 8"
  have s1: "unat (width h * rgbBitCount ?pf + 7) = ?W * ?b + 7"
    using nowrap(1) by (simp add: unat_word_ariths mod_simps)
  have pw: "unat ?pw = ?P" by (simp add: unat_div s1)
  have n: "unat (?pw * height h) = ?P * ?H"
    using nowrap(2) unat_mult_lem [of ?pw "height h"] by (simp add: pw)
  have sw: "unat (rgbBitCount ?pf div 8) = ?b div 8" by (simp add: unat_div)
  from dec obtain bytes where rf: "ReadFull r (?P * ?H) = Ok bytes"
    and im: "im = \<lparr>hdr = h, buf = bytes,
                    rBit = lowestSetBit (rBitMask ?pf), gBit = lowestSetBit (gBitMask ?pf),
                    bBit = lowestSetBit (bBitMask ?pf), aBit = lowestSetBit (aBitMask ?pf),
                    stride = ?b div 8, pitch = ?P\<rparr>"
    by (auto simp add: decodeUncompressedDDS_def Let_def n pw sw split: if_splits result.splits)
  from rf have bytes: "bytes = take (?P * ?H) (pending r)" "?P * ?H \<le> length (pending r)"
    by (auto simp add: ReadFull_def split: if_splits option.splits)
  let ?a = "?P * y + (?b div 8) * x"
  have fit: "?a + (?b + 7) div 8 \<le> ?P * ?H" by (rule pixel_fits_buffer [OF xy])
  have lb: "length bytes = ?P * ?H" using bytes by simp
  have sl: "sliceFrom (sliceOf bytes) ?a = Ok \<lparr>backing = drop ?a bytes, len = ?P * ?H - ?a\<rparr>"
    using fit lb by (simp add: sliceFrom_def sliceOf_def)
  have tk: "take ((?b + 7) div 8) (drop ?a bytes) = take ((?b + 7) div 8) (drop ?a (pending r))"
    using fit by (simp add: bytes(1) drop_take min_def)
  have rb: "readBits \<lparr>backing = drop ?a bytes, len = ?P * ?H - ?a\<rparr> (rgbBitCount ?pf)
              = Ok (word_of_int (leValue (take ((?b + 7) div 8) (drop ?a (pending r)))))"
    using fit by (simp add: readBits_def Let_def tk)
  show ?thesis
    by (simp add: im At_def Let_def sl rb)
qed

text \<open>Claim C8, at a header of width \<open>2^27\<close>, height 1 and 32 bits per pixel. The
  exact pitch is \<open>2^29\<close> bytes; the code computes \<open>width * rgbBitCount + 7\<close> in 32
  bits, where the product is 0, so the pitch is 0, no pixel byte is read, and the
  accessor at the in-bounds pixel (1, 0) slices the empty buffer at offset 4 and
  panics.\<close>

theorem decodeUncompressedDDS_pitch_wraps:
  "(case decodeUncompressedDDS (fixedHeaderDeps (rgba32Header 0 0x41 0x08000000 1))
           (rgba32Header 0 0x41 0x08000000 1)
           \<lparr>pending = [1, 2, 3, 4, 5, 6, 7, 8], fault = None\<rparr> of
      Ok (PullImage im) \<Rightarrow>
        pitch im = 0 \<and> stride im = 4 \<and> buf im = [] \<and> At im 1 0 = Panic SliceBoundsOutOfRange
    | _ \<Rightarrow> False)"
  by code_simp

section \<open>The decoder reads only the bytes of its input\<close>

lemma take_drop_visible:
  assumes "a + n \<le> len s"
  shows "take n (drop a (backing s)) = take n (drop a (visible s))"
  using assms by (simp add: visible_def drop_take min_def)

lemma block_at_visible:
  assumes "a + 16 \<le> len s1" "len s1 = len s2" "visible s1 = visible s2"
    "len s1 \<le> cap s1" "len s2 \<le> cap s2"
  shows "rbind (sliceFrom s1 a) (\<lambda>p. decompressDxt5Block expand p offsetX offsetY w u)
       = rbind (sliceFrom s2 a) (\<lambda>p. decompressDxt5Block expand p offsetX offsetY w u)"
proof -
  have c: "16 \<le> cap \<lparr>backing = drop a (backing s), len = len s - a\<rparr>"
    if "a + 16 \<le> len s" "len s \<le> cap s" for s
    using that by (simp add: cap_def)
  have "take 16 (drop a (backing s1)) = take 16 (drop a (backing s2))"
    using take_drop_visible [of a 16 s1] take_drop_visible [of a 16 s2] assms by simp
  then show ?thesis
    using assms c [of s1] c [of s2]
    by (simp add: sliceFrom_def decompressDxt5Block_bytes)
qed

lemma blockRow_visible:
  assumes "fst st + blockCountX * 16 \<le> len s1" "len s1 = len s2" "visible s1 = visible s2"
    "len s1 \<le> cap s1" "len s2 \<le> cap s2"
  shows "blockRow expand s1 w blockCountX j st = blockRow expand s2 w blockCountX j st"
proof -
  have "forM [0..<blockCountX] (\<lambda>i unpacked.
            rbind (sliceFrom s1 (fst st + i * 16)) (\<lambda>p.
              decompressDxt5Block expand p (i * blockSize) (j * blockSize) w unpacked)) (snd st)
      = forM [0..<blockCountX] (\<lambda>i unpacked.
            rbind (sliceFrom s2 (fst st + i * 16)) (\<lambda>p.
              decompressDxt5Block expand p (i * blockSize) (j * blockSize) w unpacked)) (snd st)"
  proof (rule forM_cong)
    fix i t
    assume "i \<in> set [0..<blockCountX]"
    then have "Suc i \<le> blockCountX" by simp
    then have "Suc i * 16 \<le> blockCountX * 16" by (rule mult_le_mono1)
    then have "fst st + i * 16 + 16 \<le> len s1" using assms(1) by simp
    then show "rbind (sliceFrom s1 (fst st + i * 16)) (\<lambda>p.
              decompressDxt5Block expand p (i * blockSize) (j * blockSize) w t)
      = rbind (sliceFrom s2 (fst st + i * 16)) (\<lambda>p.
              decompressDxt5Block expand p (i * blockSize) (j * blockSize) w t)"
      using assms(2-5) by (rule block_at_visible)
  qed
  then show ?thesis by (simp add: blockRow_def)
qed

lemma blockRow_offset:
  "blockRow expand packed w blockCountX j st = Ok st' \<Longrightarrow> fst st' = fst st + blockCountX * 16"
  by (auto simp add: blockRow_def rbind_Ok_iff)

lemma rows_visible:
  assumes "len s1 = len s2" "visible s1 = visible s2" "len s1 \<le> cap s1" "len s2 \<le> cap s2"
  shows "fst st + length ks * (blockCountX * 16) \<le> len s1 \<Longrightarrow>
         forM ks (blockRow expand s1 w blockCountX) st = forM ks (blockRow expand s2 w blockCountX) st"
proof (induction ks arbitrary: st)
  case Nil
  then show ?case by simp
next
  case (Cons j ks)
  from Cons.prems have here: "fst st + blockCountX * 16 \<le> len s1" by simp
  have row: "blockRow expand s1 w blockCountX j st = blockRow expand s2 w blockCountX j st"
    using here assms by (rule blockRow_visible)
  show ?case
  proof (cases "blockRow expand s2 w blockCountX j st")
    case (Ok st')
    then have "fst st' = fst st + blockCountX * 16" by (rule blockRow_offset)
    then have "fst st' + length ks * (blockCountX * 16) \<le> len s1" using Cons.prems by simp
    then show ?thesis using Cons.IH [of st'] row Ok by simp
  next
    case (Err e)
    then show ?thesis using row by simp
  next
    case (Panic p)
    then show ?thesis using row by simp
  qed
qed

lemma decompressDxt5_visible:
  assumes "((w + 3) div 4) * ((h + 3) div 4) * 16 \<le> len s1"
    "len s1 = len s2" "visible s1 = visible s2" "len s1 \<le> cap s1" "len s2 \<le> cap s2"
  shows "decompressDxt5 expand s1 w h = decompressDxt5 expand s2 w h"
proof -
  have "fst (0::nat, replicate (w * h) zeroRGBA)
          + length [0..<(h + 3) div 4] * ((w + 3) div 4 * 16) \<le> len s1"
    using assms(1) by (simp add: mult.commute mult.left_commute)
  from rows_visible [OF assms(2-5) this]
  show ?thesis by (simp add: decompressDxt5_def Let_def blockSize_def)
qed

lemma decodeDXT5DDS_spare:
  assumes "((unat (width h) + 3) div 4) * ((unat (height h) + 3) div 4) * 16 \<le> length (pending r)"
  shows "decodeDXT5DDS d spare1 h r = decodeDXT5DDS d spare2 h r"
proof (cases "fault r")
  case None
  let ?s1 = "\<lparr>backing = pending r @ spare1, len = length (pending r)\<rparr>"
  let ?s2 = "\<lparr>backing = pending r @ spare2, len = length (pending r)\<rparr>"
  have "decompressDxt5 (expand565 d) ?s1 (unat (width h)) (unat (height h))
      = decompressDxt5 (expand565 d) ?s2 (unat (width h)) (unat (height h))"
    by (rule decompressDxt5_visible) (use assms in \<open>simp_all add: visible_def cap_def\<close>)
  then show ?thesis by (simp add: decodeDXT5DDS_def ReadAll_def None)
next
  case (Some e)
  then show ?thesis by (simp add: decodeDXT5DDS_def ReadAll_def)
qed

lemma decodeDXT1DDS_spare:
  "decodeDXT1DDS d spare1 h r = decodeDXT1DDS d spare2 h r"
  by (cases "fault r") (simp_all add: decodeDXT1DDS_def ReadAll_def visible_def)

text \<open>Claim C9. Two runs of \<open>Decode\<close> on the same input bytes give the same outcome,
  hence the same surface, whatever the buffers of the two runs hold beyond the input
  (\<open>spare1\<close>, \<open>spare2\<close>). The input is valid: its header is read, and for BC3 data
  every block of the declared dimensions is present.\<close>

theorem Decode_same_bytes_same_surface:
  assumes "readHeader d r = Ok (h, r')"
    and "fourCC (pixelFormat h) = compressionTypeDXT5 \<Longrightarrow>
           ((unat (width h) + 3) div 4) * ((unat (height h) + 3) div 4) * 16 \<le> length (pending r')"
  shows "Decode d spare1 r = Decode d spare2 r"
  using assms(2) decodeDXT5DDS_spare [of h r' d spare1 spare2]
    decodeDXT1DDS_spare [of d spare1 h r' spare2]
  by (simp add: Decode_def assms(1))

theorem Decode_same_bytes_same_surface_witness:
  "readHeader (fixedHeaderDeps (rgba32Header 0x35545844 0x4 4 4))
       \<lparr>pending = [255, 0, 2, 0, 0, 0, 0, 0, 0, 0xF8, 0xE0, 0x07, 2, 0, 0, 0], fault = None\<rparr>
     = Ok (rgba32Header 0x35545844 0x4 4 4,
           \<lparr>pending = [255, 0, 2, 0, 0, 0, 0, 0, 0, 0xF8, 0xE0, 0x07, 2, 0, 0, 0], fault = None\<rparr>)
   \<and> fourCC (pixelFormat (rgba32Header 0x35545844 0x4 4 4)) = compressionTypeDXT5
   \<and> ((unat (4 :: 32 word) + 3) div 4) * ((unat (4 :: 32 word) + 3) div 4) * 16
        \<le> length [255, 0, 2, 0, 0, 0, 0, 0, 0, 0xF8, 0xE0, 0x07, 2, 0, 0, 0 :: byte]
   \<and> Decode (fixedHeaderDeps (rgba32Header 0x35545844 0x4 4 4)) []
        \<lparr>pending = [255, 0, 2, 0, 0, 0, 0, 0, 0, 0xF8, 0xE0, 0x07, 2, 0, 0, 0], fault = None\<rparr>
     = Decode (fixedHeaderDeps (rgba32Header 0x35545844 0x4 4 4)) [9, 9, 9]
        \<lparr>pending = [255, 0, 2, 0, 0, 0, 0, 0, 0, 0xF8, 0xE0, 0x07, 2, 0, 0, 0], fault = None\<rparr>"
proof -
  let ?h = "rgba32Header 0x35545844 0x4 4 4"
  let ?r = "\<lparr>pending = [255, 0, 2, 0, 0, 0, 0, 0, 0, 0xF8, 0xE0, 0x07, 2, 0, 0, 0 :: byte],
             fault = None\<rparr>"
  have rh: "readHeader (fixedHeaderDeps ?h) ?r = Ok (?h, ?r)"
    by (simp add: fixedHeaderDeps_def)
  have tag: "fourCC (pixelFormat ?h) = compressionTypeDXT5"
    by (simp add: rgba32Header_def compressionTypeDXT5_def le32_def)
  have enough: "((unat (width ?h) + 3) div 4) * ((unat (height ?h) + 3) div 4) * 16
                  \<le> length (pending ?r)"
    by (simp add: rgba32Header_def)
  from Decode_same_bytes_same_surface [OF rh enough, of "[]" "[9, 9, 9]"] rh tag
  show ?thesis by simp
qed

end
